theory Spec2Isabelle
  imports Complex_Main "HOL-Library.Word"
begin

section \<open>The contiguous frame pool of cont\_frame\_pool.C\<close>

text \<open>
  The model takes the data model of the i386 kernel the file is written for:
  \<open>unsigned int\<close>, \<open>unsigned long\<close>, \<open>int\<close> and pointers are 32 bits wide, and a frame
  state is one \<open>unsigned char\<close>. The bitmap of a pool is a raw pointer into physical memory
  (\<open>(unsigned char *) (base_frame_no * FRAME_SIZE)\<close>), and no access through it is
  bounds-checked, so memory is one flat byte store indexed by 32-bit addresses and
  \<open>bitmap[i]\<close> is the byte at address \<open>bitmap + i\<close>. The pool objects themselves are
  kept apart from that store.

  \<open>FRAME_SIZE\<close> is declared in a header that is not part of the sources; the functions
  that use it take it as the parameter \<open>FS\<close>. An \<open>assert\<close> that fails and a signed
  increment that overflows are the faults of the model.
\<close>

type_synonym memory = "32 word \<Rightarrow> 8 word"

text \<open>The three byte values named in the comment above the constructor.\<close>

definition FREE :: "8 word" where
  "FREE = 0xFF"

definition HEAD_OF_SEQUENCE :: "8 word" where
  "HEAD_OF_SEQUENCE = 0x77"

definition ALLOCATED :: "8 word" where
  "ALLOCATED = 0xAA"

text \<open>The data members of a \<open>ContFramePool\<close> object. The static list
  \<open>pool_head\<close>, \<open>pool_next\<close> is the list of pools in order of construction.\<close>

record pool =
  base_frame_no :: "32 word"
  nframes :: "32 word"
  nFreeFrames :: "32 word"
  info_frame_no :: "32 word"
  n_info_frames :: "32 word"
  bitmap :: "32 word"

datatype fault = AssertionFailed | SignedOverflow

text \<open>The stored state of the frame at offset \<open>k\<close> of a pool, and the number of frames
  of the pool whose stored state is FREE.\<close>

definition frame_state :: "pool \<Rightarrow> memory \<Rightarrow> 32 word \<Rightarrow> 8 word" where
  "frame_state p m k = m (bitmap p + k)"

definition count_free :: "pool \<Rightarrow> memory \<Rightarrow> nat" where
  "count_free p m = length (filter (\<lambda>k. frame_state p m (of_nat k) = FREE) [0 ..< unat (nframes p)])"

subsection \<open>Constructor\<close>

text \<open>\<open>for (unsigned int i = 0; i < _n_frames; i++) bitmap[i] = 0xFF;\<close>\<close>

function fill_free :: "32 word \<Rightarrow> 32 word \<Rightarrow> 32 word \<Rightarrow> memory \<Rightarrow> memory" where
  "fill_free bm n i m =
     (if i < n then fill_free bm n (i + 1) (m(bm + i := 0xFF)) else m)"
  by pat_completeness auto
termination
  by (relation "measure (\<lambda>(bm, n, i, m). unat n - unat i)") (auto, unat_arith)

declare fill_free.simps [simp del]

text \<open>
  \<open>for (int i = cont_info; i <= cont_info + n_info_frames - 1; i++)
     { bitmap[i] = 0xFF; nFreeFrames--; }\<close>

  The comparison is made in \<open>unsigned long\<close>; \<open>i\<close> is a signed \<open>int\<close>, whose increment
  at \<open>INT_MAX\<close> is undefined and is a fault of the model.
\<close>

function info_loop ::
  "32 word \<Rightarrow> 32 word \<Rightarrow> 32 word \<Rightarrow> 32 word \<Rightarrow> memory \<Rightarrow> fault + (32 word \<times> memory)" where
  "info_loop bm bound i nfree m =
     (if i \<le> bound then
        (if i = 0x7FFFFFFF then Inl SignedOverflow
         else info_loop bm bound (i + 1) (nfree - 1) (m(bm + i := 0xFF)))
      else Inr (nfree, m))"
  by pat_completeness auto

termination
proof (relation "measure (\<lambda>(bm, bound, i, nfree, m). unat (0x7FFFFFFF - i))")
  show "wf (measure (\<lambda>(bm :: 32 word, bound :: 32 word, i :: 32 word, nfree :: 32 word,
    m :: memory). unat (0x7FFFFFFF - i)))"
    by (rule wf_measure)
next
  fix bm bound i nfree :: "32 word" and m :: memory
  assume "i \<noteq> 0x7FFFFFFF"
  define x where "x = 0x7FFFFFFF - i"
  have "x \<noteq> 0"
    using \<open>i \<noteq> 0x7FFFFFFF\<close> by (simp add: x_def)
  moreover have "0x7FFFFFFF - (i + 1) = x - 1"
    by (simp add: x_def)
  ultimately have "unat (0x7FFFFFFF - (i + 1)) < unat (0x7FFFFFFF - i)"
    unfolding x_def [symmetric] by (simp, unat_arith)
  then show "((bm, bound, i + 1, nfree - 1, m(bm + i := 0xFF)), (bm, bound, i, nfree, m))
    \<in> measure (\<lambda>(bm, bound, i, nfree, m). unat (0x7FFFFFFF - i))"
    by (simp only: in_measure prod.case)
qed

declare info_loop.simps [simp del]

text \<open>
  The constructor, in the order of the source: the assertion, the data members, the
  append to the list of pools, the address of the bitmap, all frames set to \<open>0xFF\<close>,
  then frame 0 set to \<open>0x0\<close> when the pool hosts its own bitmap, then the loop over the
  info frames. The result is the extended list of pools and the memory.
\<close>

definition ContFramePool ::
  "32 word \<Rightarrow> pool list \<Rightarrow> memory \<Rightarrow> 32 word \<Rightarrow> 32 word \<Rightarrow> 32 word \<Rightarrow> 32 word
     \<Rightarrow> fault + (pool list \<times> memory)" where
  "ContFramePool FS ps m b n info_no n_info =
     (if \<not> n \<le> FS * 8 then Inl AssertionFailed
      else
        let bm = (if info_no = 0 then b * FS else info_no * FS);
            m1 = fill_free bm n 0 m;
            (m2, nfree, cont_info) =
              (if info_no = 0 then (m1(bm + 0 := 0x0), n - 1, 1) else (m1, n, info_no))
        in case info_loop bm (cont_info + n_info - 1) cont_info nfree m2 of
             Inl e \<Rightarrow> Inl e
           | Inr (nfree', m3) \<Rightarrow>
               Inr (ps @ [\<lparr>base_frame_no = b, nframes = n, nFreeFrames = nfree',
                            info_frame_no = info_no, n_info_frames = n_info, bitmap = bm\<rparr>],
                    m3))"

subsection \<open>get\_frames\<close>

text \<open>
  \<open>while (counter > 1) { frame_head++; bitmap[frame_head] = 0xAA; nFreeFrames--; counter--; }\<close>
\<close>

function mark_run ::
  "32 word \<Rightarrow> 32 word \<Rightarrow> 32 word \<Rightarrow> 32 word \<Rightarrow> memory \<Rightarrow> 32 word \<times> memory" where
  "mark_run bm frame_head counter nfree m =
     (if 1 < counter
      then mark_run bm (frame_head + 1) (counter - 1) (nfree - 1) (m(bm + (frame_head + 1) := 0xAA))
      else (nfree, m))"
  by pat_completeness auto
termination
  by (relation "measure (\<lambda>(bm, frame_head, counter, nfree, m). unat counter)") (auto, unat_arith)

declare mark_run.simps [simp del]

text \<open>The first statement of the loop body: the update of \<open>frame_head\<close> and \<open>counter\<close>
  from the byte of frame \<open>i\<close>.\<close>

definition count_step :: "8 word \<Rightarrow> 32 word \<Rightarrow> 32 word \<Rightarrow> 32 word \<Rightarrow> 32 word \<times> 32 word" where
  "count_step byte i frame_head counter =
     (if byte = 0xFF
      then ((if counter = 0 then i else frame_head), counter + 1)
      else (frame_head, 0))"

text \<open>
  The \<open>for\<close> loop of \<open>get_frames\<close>, with its bound \<open>i < nframes - 1\<close>. The result is the
  returned frame number, the pool with its new \<open>nFreeFrames\<close>, and the memory.
\<close>

function scan_frames ::
  "pool \<Rightarrow> memory \<Rightarrow> 32 word \<Rightarrow> 32 word \<Rightarrow> 32 word \<Rightarrow> 32 word \<Rightarrow> 32 word \<times> pool \<times> memory" where
  "scan_frames p m n i frame_head counter =
     (if i < nframes p - 1 then
        (case count_step (m (bitmap p + i)) i frame_head counter of
           (frame_head', counter') \<Rightarrow>
             if counter' = n then
               (case mark_run (bitmap p) frame_head' counter' (nFreeFrames p - 1)
                       (m(bitmap p + frame_head' := 0x77)) of
                  (nfree, m') \<Rightarrow>
                    (base_frame_no p + frame_head', p\<lparr>nFreeFrames := nfree\<rparr>, m'))
             else scan_frames p m n (i + 1) frame_head' counter')
      else (0, p, m))"
  by pat_completeness auto
termination
  by (relation "measure (\<lambda>(p, m, n, i, frame_head, counter). unat (nframes p - 1) - unat i)")
    (auto, unat_arith)

declare scan_frames.simps [simp del]

definition get_frames :: "pool \<Rightarrow> memory \<Rightarrow> 32 word \<Rightarrow> 32 word \<times> pool \<times> memory" where
  "get_frames p m n =
     (if nFreeFrames p = 0 \<or> nFreeFrames p < n then (0, p, m)
      else scan_frames p m n 0 0 0)"

subsection \<open>mark\_inaccessible\<close>

definition mark_inaccessible :: "pool \<Rightarrow> memory \<Rightarrow> 32 word \<Rightarrow> fault + (pool \<times> memory)" where
  "mark_inaccessible p m frame_no =
     (if \<not> (base_frame_no p \<le> frame_no \<and> frame_no < base_frame_no p + nframes p)
      then Inl AssertionFailed
      else
        let bitmap_index = frame_no - base_frame_no p
        in Inr (p\<lparr>nFreeFrames := nFreeFrames p - 1\<rparr>, m(bitmap p + bitmap_index := 0x80)))"

text \<open>
  \<open>for (i = _base_frame_no; i < _base_frame_no + _n_frames; i++) mark_inaccessible(i);\<close>
  with \<open>int i\<close>, called as \<open>mark_inaccessible_range p m _base_frame_no
  (_base_frame_no + _n_frames)\<close>.
\<close>

function mark_inaccessible_range ::
  "pool \<Rightarrow> memory \<Rightarrow> 32 word \<Rightarrow> 32 word \<Rightarrow> fault + (pool \<times> memory)" where
  "mark_inaccessible_range p m i bound =
     (if i < bound then
        (case mark_inaccessible p m i of
           Inl e \<Rightarrow> Inl e
         | Inr (p', m') \<Rightarrow>
             if i = 0x7FFFFFFF then Inl SignedOverflow
             else mark_inaccessible_range p' m' (i + 1) bound)
      else Inr (p, m))"
  by pat_completeness auto
termination
  by (relation "measure (\<lambda>(p, m, i, bound). unat bound - unat i)") (auto, unat_arith)

declare mark_inaccessible_range.simps [simp del]

subsection \<open>release\_frames\<close>

text \<open>
  The inner loop of \<open>release_frames\<close> on the state \<open>(position, nFreeFrames, memory)\<close>:
  its condition, its body, and the loop itself. The loop may run forever, in which case
  its value is \<open>None\<close>.
\<close>

definition walk_cond :: "32 word \<Rightarrow> 32 word \<times> 32 word \<times> memory \<Rightarrow> bool" where
  "walk_cond tBitmap s =
     (case s of (position, nfree, m) \<Rightarrow>
        m (tBitmap + position) \<noteq> 0xFF \<or> m (tBitmap + position) \<noteq> 0x77)"

definition walk_body :: "32 word \<Rightarrow> 32 word \<times> 32 word \<times> memory \<Rightarrow> 32 word \<times> 32 word \<times> memory" where
  "walk_body tBitmap s =
     (case s of (position, nfree, m) \<Rightarrow>
        (position + 1, nfree + 1, m(tBitmap + position := 0xFF)))"

partial_function (option) release_walk ::
  "32 word \<Rightarrow> 32 word \<times> 32 word \<times> memory \<Rightarrow> (32 word \<times> 32 word \<times> memory) option" where
  "release_walk tBitmap s =
     (if walk_cond tBitmap s then release_walk tBitmap (walk_body tBitmap s) else Some s)"

text \<open>The test that selects the pool in \<open>release_frames\<close>.\<close>

definition in_pool :: "pool \<Rightarrow> 32 word \<Rightarrow> bool" where
  "in_pool temp first_frame_no =
     (base_frame_no temp \<le> first_frame_no
      \<and> first_frame_no \<le> base_frame_no temp + nframes temp)"

text \<open>
  The outer loop over the list of pools, from \<open>pool_head\<close>. It returns when the list is
  exhausted or after the walk in the first pool that passes the test; \<open>None\<close> is a call
  that does not return.
\<close>

fun release_frames :: "pool list \<Rightarrow> memory \<Rightarrow> 32 word \<Rightarrow> (pool list \<times> memory) option" where
  "release_frames [] m first_frame_no = Some ([], m)"
| "release_frames (temp # rest) m first_frame_no =
     (if in_pool temp first_frame_no then
        (let position = first_frame_no - base_frame_no temp
         in case release_walk (bitmap temp)
                   (position + 1, nFreeFrames temp + 1, m(bitmap temp + position := 0xFF)) of
              None \<Rightarrow> None
            | Some (position', nfree, m') \<Rightarrow> Some (temp\<lparr>nFreeFrames := nfree\<rparr> # rest, m'))
      else
        (case release_frames rest m first_frame_no of
           None \<Rightarrow> None
         | Some (rest', m') \<Rightarrow> Some (temp # rest', m')))"

subsection \<open>needed\_info\_frames\<close>

definition needed_info_frames :: "32 word \<Rightarrow> 32 word \<Rightarrow> 32 word" where
  "needed_info_frames FS n =
     (let numberOfFrames = FS
      in n div numberOfFrames + (if n mod numberOfFrames > 0 then 1 else 0))"

subsection \<open>Runs of free frames\<close>

text \<open>
  The vocabulary of the claims about \<open>get_frames\<close>, over frame offsets as natural numbers:
  \<open>free_run p m h n\<close> says that the \<open>n\<close> frames from offset \<open>h\<close> on are FREE, and
  \<open>first_free_run p m n h\<close> that \<open>h\<close> is the least offset of such a run among the frames
  that the loop of \<open>get_frames\<close> examines, the offsets below \<open>nframes - 1\<close>.
  \<open>scan_inv\<close> is the invariant of that loop at index \<open>i\<close>, and \<open>scan_post\<close> what the loop
  returns: either 0 and the state as it was, when the examined frames hold no run, or the
  first run marked and subtracted from \<open>nFreeFrames\<close>.
\<close>

definition free_run :: "pool \<Rightarrow> memory \<Rightarrow> nat \<Rightarrow> nat \<Rightarrow> bool" where
  "free_run p m h n = (\<forall>j<n. frame_state p m (of_nat (h + j)) = FREE)"

definition first_free_run :: "pool \<Rightarrow> memory \<Rightarrow> nat \<Rightarrow> nat \<Rightarrow> bool" where
  "first_free_run p m n h =
     (h + n \<le> unat (nframes p - 1) \<and> free_run p m h n \<and> (\<forall>h'<h. \<not> free_run p m h' n))"

definition scan_inv :: "pool \<Rightarrow> memory \<Rightarrow> nat \<Rightarrow> nat \<Rightarrow> nat \<Rightarrow> nat \<Rightarrow> bool" where
  "scan_inv p m n i fh c =
     (c \<le> i \<and> i \<le> unat (nframes p - 1) \<and> c < n \<and> (c \<noteq> 0 \<longrightarrow> fh + c = i)
      \<and> free_run p m (i - c) c
      \<and> (c < i \<longrightarrow> frame_state p m (of_nat (i - c - 1)) \<noteq> FREE)
      \<and> (\<forall>h. h + n \<le> i \<longrightarrow> \<not> free_run p m h n))"

definition scan_post :: "pool \<Rightarrow> memory \<Rightarrow> 32 word \<Rightarrow> 32 word \<times> pool \<times> memory \<Rightarrow> bool" where
  "scan_post p m n r =
     ((r = (0, p, m)
        \<and> (\<forall>h. h + unat n \<le> unat (nframes p - 1) \<longrightarrow> \<not> free_run p m h (unat n)))
      \<or> (\<exists>h. first_free_run p m (unat n) h
            \<and> r = (base_frame_no p + of_nat h, p\<lparr>nFreeFrames := nFreeFrames p - n\<rparr>,
                   \<lambda>a. if a = bitmap p + of_nat h then 0x77
                        else if (\<exists>j. 0 < j \<and> j < unat n \<and> a = bitmap p + of_nat h + of_nat j)
                        then 0xAA else m a)))"

text \<open>The cached counter of a pool agrees with its bitmap.\<close>

definition counts_agree :: "pool \<Rightarrow> memory \<Rightarrow> bool" where
  "counts_agree p m = (unat (nFreeFrames p) = count_free p m)"

subsection \<open>Example pools\<close>

text \<open>
  With \<open>FRAME_SIZE = 4096\<close> and all memory zero, \<open>ContFramePool(2, 4, 0, 0)\<close> gives the pool
  \<open>pool_K\<close> of frames 2 to 5 with its bitmap at address \<open>2 * 4096\<close>, in memory \<open>mem_K\<close>;
  \<open>get_frames(2)\<close> on it gives \<open>pool_K2\<close> and \<open>mem_K2\<close>; a second pool
  \<open>ContFramePool(6, 4, 0, 0)\<close> of frames 6 to 9 is \<open>pool_B\<close>, in memory \<open>mem_KB\<close>;
  \<open>ContFramePool(0, 4, 8, 0)\<close> is the pool \<open>pool_Z\<close> of frames 0 to 3 with its bitmap in
  frame 8, in memory \<open>mem_Z\<close>.
\<close>

definition pool_K :: pool where
  "pool_K = \<lparr>base_frame_no = 2, nframes = 4, nFreeFrames = 3, info_frame_no = 0,
              n_info_frames = 0, bitmap = 8192\<rparr>"

definition mem_K :: memory where
  "mem_K = (\<lambda>_. 0)(8193 := 0xFF, 8194 := 0xFF, 8195 := 0xFF, 8192 := 0x0)"

definition pool_K2 :: pool where
  "pool_K2 = pool_K\<lparr>nFreeFrames := 1\<rparr>"

definition mem_K2 :: memory where
  "mem_K2 = mem_K(8193 := 0x77, 8194 := 0xAA)"

definition pool_B :: pool where
  "pool_B = \<lparr>base_frame_no = 6, nframes = 4, nFreeFrames = 3, info_frame_no = 0,
              n_info_frames = 0, bitmap = 24576\<rparr>"

definition mem_KB :: memory where
  "mem_KB = mem_K(24577 := 0xFF, 24578 := 0xFF, 24579 := 0xFF, 24576 := 0x0)"

definition pool_Z :: pool where
  "pool_Z = \<lparr>base_frame_no = 0, nframes = 4, nFreeFrames = 4, info_frame_no = 8,
              n_info_frames = 0, bitmap = 32768\<rparr>"

definition mem_Z :: memory where
  "mem_Z = (\<lambda>_. 0)(32768 := 0xFF, 32769 := 0xFF, 32770 := 0xFF, 32771 := 0xFF)"

section \<open>Properties\<close>

lemmas frame_state_defs = FREE_def HEAD_OF_SEQUENCE_def ALLOCATED_def

lemmas eval_defs = ContFramePool_def fill_free.simps info_loop.simps Let_def get_frames_def
  scan_frames.simps count_step_def mark_run.simps mark_inaccessible_def in_pool_def
  pool_K_def mem_K_def pool_B_def pool_K2_def mem_K2_def mem_KB_def pool_Z_def mem_Z_def
  frame_state_def frame_state_defs word_less_nat_alt word_le_nat_alt

subsection \<open>The example pools are reachable\<close>

lemma pool_K_constructed:
  "ContFramePool 4096 [] (\<lambda>_. 0) 2 4 0 0 = Inr ([pool_K], mem_K)"
  by (simp add: eval_defs)

lemma pool_B_constructed:
  "ContFramePool 4096 [pool_K] mem_K 6 4 0 0 = Inr ([pool_K, pool_B], mem_KB)"
  by (simp add: eval_defs)

lemma pool_Z_constructed:
  "ContFramePool 4096 [] (\<lambda>_. 0) 0 4 8 0 = Inr ([pool_Z], mem_Z)"
  by (simp add: eval_defs)

lemma pool_K2_allocated: "get_frames pool_K mem_K 2 = (3, pool_K2, mem_K2)"
  by (simp add: eval_defs)

subsection \<open>The release walk never ends\<close>

text \<open>A byte cannot be \<open>0xFF\<close> and \<open>0x77\<close> at once, so the condition of the inner loop of
  \<open>release_frames\<close> holds in every state, and the loop returns in none.\<close>

lemma walk_cond_always: "walk_cond tBitmap s"
  by (cases s) (auto simp: walk_cond_def)

lemma release_walk_never_returns: "release_walk tBitmap s = None"
proof -
  have "False" if a: "release_walk tBitmap s = Some r" for r
  proof (rule release_walk.raw_induct [where P = "\<lambda>_ _ _. False", OF _ a])
    fix rw tb s y
    assume ih: "\<And>tb s y. rw tb s = Some y \<Longrightarrow> False"
      and "(if walk_cond tb s then rw tb (walk_body tb s) else Some s) = Some y"
    then have "rw tb (walk_body tb s) = Some y"
      by (simp add: walk_cond_always)
    then show False by (rule ih)
  qed
  then show ?thesis by (cases "release_walk tBitmap s") auto
qed

text \<open>So \<open>release_frames\<close> returns exactly when no pool of the list passes its test, and
  then it has changed nothing.\<close>

lemma release_frames_char:
  "release_frames ps m first_frame_no =
     (if \<exists>temp \<in> set ps. in_pool temp first_frame_no then None else Some (ps, m))"
  by (induction ps) (simp_all add: release_walk_never_returns)

text \<open>The state after \<open>k\<close> rounds of the loop body: every address from the start of the walk
  on, \<open>k\<close> of them, holds \<open>0xFF\<close>.\<close>

lemma walk_body_funpow:
  "k \<le> 2 ^ 32 \<Longrightarrow> (walk_body tb ^^ k) (pos, nf, m) =
     (pos + of_nat k, nf + of_nat k, \<lambda>a. if unat (a - (tb + pos)) < k then 0xFF else m a)"
proof (induction k)
  case 0
  then show ?case by simp
next
  case (Suc k)
  then have k: "k < 2 ^ 32"
    by simp
  have eq: "(a = tb + (pos + word_of_nat k)) = (unat (a - (tb + pos)) = k)" for a :: "32 word"
  proof
    assume "a = tb + (pos + word_of_nat k)"
    then have "a - (tb + pos) = word_of_nat k"
      by simp
    then show "unat (a - (tb + pos)) = k"
      using k by (simp add: unat_of_nat)
  next
    assume "unat (a - (tb + pos)) = k"
    then have "word_of_nat (unat (a - (tb + pos))) = (word_of_nat k :: 32 word)"
      by simp
    then have "a - (tb + pos) = word_of_nat k"
      by simp
    then show "a = tb + (pos + word_of_nat k)"
      by (simp add: algebra_simps)
  qed
  from Suc have "(walk_body tb ^^ Suc k) (pos, nf, m) =
    walk_body tb (pos + of_nat k, nf + of_nat k,
      \<lambda>a. if unat (a - (tb + pos)) < k then 0xFF else m a)"
    by simp
  also have "\<dots> = (pos + of_nat (Suc k), nf + of_nat (Suc k),
      \<lambda>a. if unat (a - (tb + pos)) < Suc k then 0xFF else m a)"
    by (auto simp: walk_body_def fun_eq_iff eq less_Suc_eq add.assoc)
  finally show ?case .
qed

text \<open>
  Claim C1, at \<open>pool_K2\<close>, whose frames are \<open>0x0\<close>, HEAD\_OF\_SEQUENCE, ALLOCATED, FREE, on
  \<open>release_frames(3)\<close>, the head of the run of two frames. When the walk reaches offset 3,
  a FREE frame, its condition holds, so it goes on; its third round writes offset 4, one
  past the last frame of the pool, and the call never returns.
\<close>

theorem release_walk_passes_free_frame:
  "get_frames pool_K mem_K 2 = (3, pool_K2, mem_K2)
   \<and> frame_state pool_K2 mem_K2 1 = HEAD_OF_SEQUENCE
   \<and> frame_state pool_K2 mem_K2 2 = ALLOCATED
   \<and> frame_state pool_K2 mem_K2 3 = FREE
   \<and> nframes pool_K2 = 4
   \<and> walk_cond (bitmap pool_K2) (3, 3, mem_K2(8193 := 0xFF, 8194 := 0xFF))
   \<and> walk_body (bitmap pool_K2) (walk_body (bitmap pool_K2)
        (walk_body (bitmap pool_K2) (2, 2, mem_K2(8193 := 0xFF))))
        = (5, 5, mem_K2(8193 := 0xFF, 8194 := 0xFF, 8195 := 0xFF, 8196 := 0xFF))
   \<and> release_frames [pool_K2] mem_K2 3 = None"
  by (simp add: eval_defs walk_cond_def walk_body_def release_walk_never_returns)

theorem release_walk_passes_free_frame_witness:
  "(mem_K2(8193 := 0xFF, 8194 := 0xFF)) (bitmap pool_K2 + 3) = 0xFF
   \<and> (mem_K2(8193 := 0xFF, 8194 := 0xFF)) (bitmap pool_K2 + 3) \<noteq> 0x77
   \<and> release_frames [pool_K2] mem_K2 3 = None"
  using release_walk_passes_free_frame
  by (simp add: eval_defs)

text \<open>
  Claim C6, at \<open>pool_K\<close>. Frame 9 is in no pool, and \<open>release_frames(9)\<close> returns with
  the pools and the memory as they were: there is no fatal failure. Frame 4 is in the pool
  and not a HEAD\_OF\_SEQUENCE, and \<open>release_frames(4)\<close> enters the walk, which never returns.
\<close>

theorem release_unowned_frame_returns:
  "\<not> (base_frame_no pool_K \<le> 9 \<and> 9 < base_frame_no pool_K + nframes pool_K)
   \<and> release_frames [pool_K] mem_K 9 = Some ([pool_K], mem_K)
   \<and> frame_state pool_K mem_K 2 \<noteq> HEAD_OF_SEQUENCE
   \<and> release_frames [pool_K] mem_K 4 = None"
  by (simp add: eval_defs release_walk_never_returns)

text \<open>
  Claim C7, at \<open>pool_K\<close>. \<open>get_frames(2)\<close> returns frame 3, and \<open>release_frames(3)\<close> right
  after it never returns, so there is no state in which the free count and the run are
  restored.
\<close>

theorem release_after_get_frames_never_returns:
  "get_frames pool_K mem_K 2 = (3, pool_K2, mem_K2)
   \<and> release_frames [pool_K2] mem_K2 3 = None"
  by (simp add: eval_defs release_walk_never_returns)

text \<open>
  Claim C8, at the pools \<open>pool_K\<close> (frames 2 to 5) and \<open>pool_B\<close> (frames 6 to 9). Frame 6
  is the first frame of \<open>pool_B\<close> and outside \<open>pool_K\<close>, yet the test of \<open>release_frames\<close>
  selects \<open>pool_K\<close>, the first in the list, and the call never returns. The walk started in
  \<open>pool_K\<close> reaches the bitmap of \<open>pool_B\<close>: after 16380 rounds the state of frame 0 of
  \<open>pool_B\<close> has changed from \<open>0x0\<close> to FREE.
\<close>

theorem release_selects_wrong_pool:
  "ContFramePool 4096 [pool_K] mem_K 6 4 0 0 = Inr ([pool_K, pool_B], mem_KB)
   \<and> \<not> (base_frame_no pool_K \<le> 6 \<and> 6 < base_frame_no pool_K + nframes pool_K)
   \<and> (base_frame_no pool_B \<le> 6 \<and> 6 < base_frame_no pool_B + nframes pool_B)
   \<and> in_pool pool_K 6
   \<and> release_frames [pool_K, pool_B] mem_KB 6 = None
   \<and> frame_state pool_B mem_KB 0 = 0
   \<and> frame_state pool_B
        (snd (snd ((walk_body (bitmap pool_K) ^^ 16380)
           (4 + 1, nFreeFrames pool_K + 1, mem_KB(bitmap pool_K + 4 := 0xFF))))) 0 = FREE"
  by (simp add: eval_defs release_walk_never_returns walk_body_funpow)

subsection \<open>The scan of get\_frames\<close>

text \<open>The inner loop marks the \<open>counter - 1\<close> frames after \<open>frame_head\<close> ALLOCATED and
  subtracts as many from the counter of free frames.\<close>

lemma mark_run_spec:
  "c \<noteq> 0 \<Longrightarrow> mark_run bm fh c nf m =
     (nf - (c - 1),
      \<lambda>a. if (\<exists>j. 0 < j \<and> j < unat c \<and> a = bm + fh + of_nat j) then 0xAA else m a)"
proof (induction bm fh c nf m rule: mark_run.induct)
  case (1 bm fh c nf m)
  show ?case
  proof (cases "1 < c")
    case True
    then have c1: "c - 1 \<noteq> 0" and u: "unat (c - 1) = unat c - 1" and ugt: "1 < unat c"
      by unat_arith+
    have ex: "(\<exists>j. 0 < j \<and> j < unat c \<and> a = bm + fh + of_nat j) \<longleftrightarrow>
        a = bm + (fh + 1) \<or> (\<exists>j. 0 < j \<and> j < unat c - 1 \<and> a = bm + (fh + 1) + of_nat j)"
      (is "?L \<longleftrightarrow> ?R") for a :: "32 word"
    proof
      assume ?L
      then obtain j where j: "0 < j" "j < unat c" "a = bm + fh + of_nat j"
        by blast
      show ?R
      proof (cases "j = 1")
        case True
        with j show ?thesis
          by (simp add: add.assoc)
      next
        case False
        with j have "0 < j - 1" "j - 1 < unat c - 1"
          by arith+
        moreover have "a = bm + (fh + 1) + of_nat (j - 1)"
          using j by (simp add: add.assoc)
        ultimately show ?thesis
          by blast
      qed
    next
      assume ?R
      then show ?L
      proof
        assume "a = bm + (fh + 1)"
        then have "a = bm + fh + of_nat 1"
          by (simp add: add.assoc)
        with ugt show ?L
          by (intro exI [of _ 1]) simp
      next
        assume "\<exists>j. 0 < j \<and> j < unat c - 1 \<and> a = bm + (fh + 1) + of_nat j"
        then obtain j where j: "0 < j" "j < unat c - 1" "a = bm + (fh + 1) + of_nat j"
          by blast
        then have "a = bm + fh + of_nat (Suc j)"
          by (simp add: add.assoc)
        moreover have "0 < Suc j" "Suc j < unat c"
          using j by arith+
        ultimately show ?L
          by blast
      qed
    qed
    have "mark_run bm fh c nf m
        = mark_run bm (fh + 1) (c - 1) (nf - 1) (m(bm + (fh + 1) := 0xAA))"
      using True by (subst mark_run.simps) simp
    also have "\<dots> = (nf - 1 - (c - 1 - 1),
        \<lambda>a. if (\<exists>j. 0 < j \<and> j < unat (c - 1) \<and> a = bm + (fh + 1) + of_nat j) then 0xAA
             else (m(bm + (fh + 1) := 0xAA)) a)"
      by (rule "1.IH" [OF True c1])
    also have "\<dots> = (nf - (c - 1),
        \<lambda>a. if (\<exists>j. 0 < j \<and> j < unat c \<and> a = bm + fh + of_nat j) then 0xAA else m a)"
      by (auto simp: fun_eq_iff u ex)
    finally show ?thesis .
  next
    case False
    with "1.prems" have "c = 1"
      by unat_arith
    then show ?thesis
      by (subst mark_run.simps) (simp add: fun_eq_iff)
  qed
qed

text \<open>One round of the outer loop keeps the invariant, or finds the first run.\<close>

lemma free_run_extend:
  "free_run p m h c \<Longrightarrow> frame_state p m (of_nat (h + c)) = FREE \<Longrightarrow> free_run p m h (Suc c)"
  by (auto simp: free_run_def less_Suc_eq)

lemma free_run_nth: "free_run p m h n \<Longrightarrow> h \<le> k \<Longrightarrow> k < h + n \<Longrightarrow> frame_state p m (of_nat k) = FREE"
proof -
  assume a: "free_run p m h n" "h \<le> k" "k < h + n"
  then have "k - h < n" by arith
  with a(1) have "frame_state p m (of_nat (h + (k - h))) = FREE" unfolding free_run_def by blast
  with a(2) show ?thesis by simp
qed

lemma scan_step_free:
  assumes inv: "scan_inv p m n i fh c" and lt: "i < unat (nframes p - 1)"
    and fr: "frame_state p m (of_nat i) = FREE" and ne: "Suc c \<noteq> n"
  shows "scan_inv p m n (Suc i) (if c = 0 then i else fh) (Suc c)"
proof -
  from inv have c: "c \<le> i" "c < n" "c \<noteq> 0 \<longrightarrow> fh + c = i" "free_run p m (i - c) c"
    "c < i \<longrightarrow> frame_state p m (of_nat (i - c - 1)) \<noteq> FREE"
    "\<forall>h. h + n \<le> i \<longrightarrow> \<not> free_run p m h n"
    by (simp_all add: scan_inv_def)
  have run: "free_run p m (Suc i - Suc c) (Suc c)"
    using free_run_extend [OF c(4)] fr c(1) by simp
  have norun: "\<not> free_run p m h n" if h: "h + n \<le> Suc i" for h
  proof (cases "h + n \<le> i")
    case True
    with c(6) show ?thesis by blast
  next
    case False
    with h have e: "h + n = Suc i" by arith
    with ne c(2) have lt': "h < i - c" and ci: "c < i" by arith+
    show ?thesis
    proof
      assume "free_run p m h n"
      then have "frame_state p m (of_nat (i - c - 1)) = FREE"
        by (rule free_run_nth) (use lt' e ci in arith)+
      with c(5) ci show False by blast
    qed
  qed
  show ?thesis
    unfolding scan_inv_def
    using c ne lt run norun by auto
qed

lemma scan_step_used:
  assumes inv: "scan_inv p m n i fh c" and lt: "i < unat (nframes p - 1)"
    and fr: "frame_state p m (of_nat i) \<noteq> FREE"
  shows "scan_inv p m n (Suc i) fh 0"
proof -
  from inv have c: "c \<le> i" "c < n" 
    "\<forall>h. h + n \<le> i \<longrightarrow> \<not> free_run p m h n"
    by (simp_all add: scan_inv_def)
  have norun: "\<not> free_run p m h n" if h: "h + n \<le> Suc i" for h
  proof (cases "h + n \<le> i")
    case True
    with c(3) show ?thesis by blast
  next
    case False
    with h have e: "h + n = Suc i" by arith
    show ?thesis
    proof
      assume "free_run p m h n"
      then have "frame_state p m (of_nat i) = FREE"
        by (rule free_run_nth) (use e c(2) in arith)+
      with fr show False by blast
    qed
  qed
  show ?thesis
    unfolding scan_inv_def
    using c lt fr norun by (auto simp: free_run_def)
qed

lemma scan_found:
  assumes inv: "scan_inv p m n i fh c" and lt: "i < unat (nframes p - 1)"
    and fr: "frame_state p m (of_nat i) = FREE" and eq: "Suc c = n"
  shows "first_free_run p m n (if c = 0 then i else fh)"
proof -
  from inv have c: "c \<le> i" "c < n" "c \<noteq> 0 \<longrightarrow> fh + c = i" "free_run p m (i - c) c"
    "\<forall>h. h + n \<le> i \<longrightarrow> \<not> free_run p m h n"
    by (simp_all add: scan_inv_def)
  have h: "(if c = 0 then i else fh) = i - c" using c by auto
  have run: "free_run p m (i - c) (Suc c)"
    using free_run_extend [OF c(4)] fr c(1) by simp
  show ?thesis
    unfolding first_free_run_def h
    using c run lt eq by auto
qed



lemma of_nat_neq_0: "0 < j \<Longrightarrow> j < unat (n :: 32 word) \<Longrightarrow> (of_nat j :: 32 word) \<noteq> 0"
proof -
  assume j: "0 < j" "j < unat n"
  have "unat n < 2 ^ 32" using unsigned_less [of n, where 'a = nat] by simp
  with j have "unat (of_nat j :: 32 word) = j" by (simp add: unat_of_nat)
  with j show ?thesis by (auto simp: unat_eq_0)
qed

lemma scan_frames_post:
  assumes "scan_inv p m (unat n) (unat i) (unat fh) (unat c)"
  shows "scan_post p m n (scan_frames p m n i fh c)"
  using assms
proof (induction p m n i fh c rule: scan_frames.induct)
  case (1 p m n i fh c)
  note inv = "1.prems"
  from inv have cle: "unat c \<le> unat i" and ile: "unat i \<le> unat (nframes p - 1)"
    and cn: "unat c < unat n"
    and norun: "\<forall>h. h + unat n \<le> unat i \<longrightarrow> \<not> free_run p m h (unat n)"
    by (simp_all add: scan_inv_def)
  from cn have n0: "n \<noteq> 0" by auto
  show ?case
  proof (cases "i < nframes p - 1")
    case False
    with ile have "unat i = unat (nframes p - 1)"
      by (simp add: word_less_nat_alt)
    with norun have "\<forall>h. h + unat n \<le> unat (nframes p - 1) \<longrightarrow> \<not> free_run p m h (unat n)"
      by simp
    moreover have "scan_frames p m n i fh c = (0, p, m)"
      using False by (subst scan_frames.simps) simp
    ultimately show ?thesis
      by (simp add: scan_post_def)
  next
    case True
    then have lt: "unat i < unat (nframes p - 1)"
      by (simp add: word_less_nat_alt)
    then have ui: "unat (i + 1) = Suc (unat i)"
      by unat_arith
    from cle lt have uc: "unat (c + 1) = Suc (unat c)"
      by unat_arith
    show ?thesis
    proof (cases "m (bitmap p + i) = 0xFF")
      case free: True
      then have fr: "frame_state p m (of_nat (unat i)) = FREE"
        by (simp add: frame_state_def FREE_def)
      let ?fh' = "if c = 0 then i else fh"
      have cs: "count_step (m (bitmap p + i)) i fh c = (?fh', c + 1)"
        by (simp add: count_step_def free)
      have ufh: "unat ?fh' = (if unat c = 0 then unat i else unat fh)"
        by (simp add: unat_eq_0)
      show ?thesis
      proof (cases "c + 1 = n")
        case found: True
        then have eq: "Suc (unat c) = unat n"
          using uc by simp
        have ffr: "first_free_run p m (unat n) (unat ?fh')"
          using scan_found [OF inv lt fr eq] ufh by simp
        have "scan_frames p m n i fh c =
          (base_frame_no p + ?fh', p\<lparr>nFreeFrames := nFreeFrames p - 1 - (n - 1)\<rparr>,
           \<lambda>a. if (\<exists>j. 0 < j \<and> j < unat n \<and> a = bitmap p + ?fh' + of_nat j) then 0xAA
                else (m(bitmap p + ?fh' := 0x77)) a)"
          using True found n0 by (subst scan_frames.simps) (simp add: cs mark_run_spec)
        also have "\<dots> = (base_frame_no p + of_nat (unat ?fh'),
            p\<lparr>nFreeFrames := nFreeFrames p - n\<rparr>,
            \<lambda>a. if a = bitmap p + of_nat (unat ?fh') then 0x77
                 else if (\<exists>j. 0 < j \<and> j < unat n \<and> a = bitmap p + of_nat (unat ?fh') + of_nat j)
                 then 0xAA else m a)"
          by (auto simp: fun_eq_iff dest: of_nat_neq_0)
        finally show ?thesis
          unfolding scan_post_def using ffr by blast
      next
        case False
        then have ne: "Suc (unat c) \<noteq> unat n"
          using uc by (metis word_unat_eq_iff)
        have "scan_inv p m (unat n) (unat (i + 1)) (unat ?fh') (unat (c + 1))"
          using scan_step_free [OF inv lt fr ne] ufh ui uc by simp
        then have "scan_post p m n (scan_frames p m n (i + 1) ?fh' (c + 1))"
          using "1.IH" [OF True cs [symmetric] False] by simp
        moreover have "scan_frames p m n i fh c = scan_frames p m n (i + 1) ?fh' (c + 1)"
          using True False by (subst scan_frames.simps) (simp add: cs)
        ultimately show ?thesis by simp
      qed
    next
      case used: False
      then have fr: "frame_state p m (of_nat (unat i)) \<noteq> FREE"
        by (simp add: frame_state_def FREE_def)
      have cs: "count_step (m (bitmap p + i)) i fh c = (fh, 0)"
        by (simp add: count_step_def used)
      have ne: "0 \<noteq> n" using n0 by simp
      have "scan_inv p m (unat n) (unat (i + 1)) (unat fh) (unat (0 :: 32 word))"
        using scan_step_used [OF inv lt fr] ui by simp
      then have "scan_post p m n (scan_frames p m n (i + 1) fh 0)"
        using "1.IH" [OF True cs [symmetric] ne] by simp
      moreover have "scan_frames p m n i fh c = scan_frames p m n (i + 1) fh 0"
        using True ne by (subst scan_frames.simps) (simp add: cs)
      ultimately show ?thesis by simp
    qed
  qed
qed


subsection \<open>What get\_frames returns\<close>

lemma get_frames_post:
  assumes n0: "n \<noteq> 0"
  shows "get_frames p m n = (0, p, m)
    \<or> (\<not> nFreeFrames p < n \<and> scan_post p m n (get_frames p m n))"
proof (cases "nFreeFrames p = 0 \<or> nFreeFrames p < n")
  case True
  then show ?thesis by (simp add: get_frames_def)
next
  case False
  from n0 have "0 < unat n" by (simp add: unat_gt_0)
  then have "scan_inv p m (unat n) (unat (0 :: 32 word)) (unat (0 :: 32 word)) (unat (0 :: 32 word))"
    by (simp add: scan_inv_def free_run_def)
  then have "scan_post p m n (scan_frames p m n 0 0 0)"
    by (rule scan_frames_post)
  with False show ?thesis by (simp add: get_frames_def)
qed

lemma unat_of_nat_32: "h < 2 ^ 32 \<Longrightarrow> unat (of_nat h :: 32 word) = h"
  by (simp add: unat_of_nat)

lemma first_free_run_bound: "first_free_run p m n h \<Longrightarrow> h + n < 2 ^ 32"
proof -
  assume "first_free_run p m n h"
  then have "h + n \<le> unat (nframes p - 1)" by (simp add: first_free_run_def)
  moreover have "unat (nframes p - 1) < 2 ^ 32"
    using unsigned_less [of "nframes p - 1", where 'a = nat] by simp
  ultimately show ?thesis by arith
qed

text \<open>The two failures of a request \<open>n \<ge> 1\<close>: fewer than \<open>n\<close> free frames counted, and no
  run of \<open>n\<close> FREE frames in the pool.\<close>

lemma get_frames_no_capacity: "nFreeFrames p < n \<Longrightarrow> get_frames p m n = (0, p, m)"
  by (simp add: get_frames_def)

lemma get_frames_no_run:
  assumes n0: "n \<noteq> 0" and nf0: "nframes p \<noteq> 0"
    and none: "\<forall>h. h + unat n \<le> unat (nframes p) \<longrightarrow> \<not> free_run p m h (unat n)"
  shows "get_frames p m n = (0, p, m)"
proof -
  have False if "first_free_run p m (unat n) h" for h
  proof -
    from that have "h + unat n \<le> unat (nframes p - 1)" "free_run p m h (unat n)"
      by (simp_all add: first_free_run_def)
    moreover from nf0 have "unat (nframes p - 1) \<le> unat (nframes p)"
      by unat_arith
    ultimately show False
      using none by (meson le_trans)
  qed
  with get_frames_post [OF n0, of p m] show ?thesis
    unfolding scan_post_def by auto
qed

text \<open>
  Claim C3. For every pool and every request \<open>n \<ge> 1\<close>, if \<open>get_frames(n)\<close> returns a
  nonzero frame number \<open>f\<close>, then \<open>f - base_frame_no\<close> is the offset of the first run of
  \<open>n\<close> FREE frames among the frames the scan examines, after the call the frame at that
  offset is HEAD\_OF\_SEQUENCE and the \<open>n - 1\<close> frames after it are ALLOCATED, and
  \<open>nFreeFrames\<close> has gone down by exactly \<open>n\<close>, without wrap-around.
\<close>

theorem get_frames_success:
  assumes n0: "n \<noteq> 0" and g: "get_frames p m n = (f, p', m')" and f0: "f \<noteq> 0"
  shows "first_free_run p m (unat n) (unat (f - base_frame_no p))
    \<and> frame_state p' m' (f - base_frame_no p) = HEAD_OF_SEQUENCE
    \<and> (\<forall>j. 0 < j \<and> j < unat n \<longrightarrow>
          frame_state p' m' (f - base_frame_no p + of_nat j) = ALLOCATED)
    \<and> unat (nFreeFrames p') + unat n = unat (nFreeFrames p)"
proof -
  from get_frames_post [OF n0, of p m] g f0
  have le: "\<not> nFreeFrames p < n" and post: "scan_post p m n (f, p', m')"
    by auto
  from post f0 obtain h where h: "first_free_run p m (unat n) h"
    and f: "f = base_frame_no p + of_nat h"
    and p': "p' = p\<lparr>nFreeFrames := nFreeFrames p - n\<rparr>"
    and m': "m' = (\<lambda>a. if a = bitmap p + of_nat h then 0x77
                        else if (\<exists>j. 0 < j \<and> j < unat n \<and> a = bitmap p + of_nat h + of_nat j)
                        then 0xAA else m a)"
    unfolding scan_post_def by auto
  have off: "f - base_frame_no p = of_nat h"
    using f by simp
  have uh: "unat (of_nat h :: 32 word) = h"
    using first_free_run_bound [OF h] by (simp add: unat_of_nat_32)
  have 1: "first_free_run p m (unat n) (unat (f - base_frame_no p))"
    using h by (simp add: off uh)
  have 2: "frame_state p' m' (f - base_frame_no p) = HEAD_OF_SEQUENCE"
    by (simp add: frame_state_def p' m' off HEAD_OF_SEQUENCE_def)
  have 3: "frame_state p' m' (f - base_frame_no p + of_nat j) = ALLOCATED"
    if j: "0 < j \<and> j < unat n" for j
  proof -
    from j have "(of_nat j :: 32 word) \<noteq> 0"
      by (auto dest: of_nat_neq_0)
    then show ?thesis
      using j by (auto simp: frame_state_def p' m' off ALLOCATED_def)
  qed
  from le have "n \<le> nFreeFrames p" by simp
  then have 4: "unat (nFreeFrames p') + unat n = unat (nFreeFrames p)"
    by (simp add: p' unat_sub word_le_nat_alt)
  from 1 2 3 4 show ?thesis by blast
qed

theorem get_frames_success_witness:
  "(2 :: 32 word) \<noteq> 0 \<and> get_frames pool_K mem_K 2 = (3, pool_K2, mem_K2) \<and> (3 :: 32 word) \<noteq> 0
   \<and> unat (3 - base_frame_no pool_K) = 1
   \<and> frame_state pool_K mem_K 0 \<noteq> FREE
   \<and> frame_state pool_K mem_K 1 = FREE
   \<and> frame_state pool_K mem_K 2 = FREE
   \<and> frame_state pool_K2 mem_K2 1 = HEAD_OF_SEQUENCE
   \<and> frame_state pool_K2 mem_K2 2 = ALLOCATED
   \<and> unat (nFreeFrames pool_K2) + 2 = unat (nFreeFrames pool_K)"
  using get_frames_success [of 2 pool_K mem_K 3 pool_K2 mem_K2] pool_K2_allocated
  by (simp add: pool_K_def pool_K2_def mem_K_def mem_K2_def frame_state_def frame_state_defs)

text \<open>
  Claim C10 as stated fails at \<open>pool_Z\<close>, whose first frame is global frame 0 and FREE:
  \<open>get_frames(1)\<close> allocates it and returns its number, which is 0, with the bitmap and
  \<open>nFreeFrames\<close> changed.
\<close>

theorem get_frames_zero_return_counterexample:
  "ContFramePool 4096 [] (\<lambda>_. 0) 0 4 8 0 = Inr ([pool_Z], mem_Z)
   \<and> get_frames pool_Z mem_Z 1 = (0, pool_Z\<lparr>nFreeFrames := 3\<rparr>, mem_Z(32768 := 0x77))
   \<and> pool_Z\<lparr>nFreeFrames := 3\<rparr> \<noteq> pool_Z
   \<and> mem_Z(32768 := 0x77) \<noteq> mem_Z"
  by (simp add: eval_defs fun_eq_iff)

text \<open>
  Claim C10, amended. For every pool whose frame range is not empty, does not wrap around
  and does not start at global frame 0, and every request \<open>n \<ge> 1\<close>: whenever
  \<open>get_frames(n)\<close> returns 0, the pool and the memory are as they were before the call.
\<close>

theorem get_frames_failure_atomic:
  assumes n0: "n \<noteq> 0" and b0: "base_frame_no p \<noteq> 0" and nf0: "nframes p \<noteq> 0"
    and nowrap: "unat (base_frame_no p) + unat (nframes p) \<le> 2 ^ 32"
    and g: "get_frames p m n = (0, p', m')"
  shows "p' = p \<and> m' = m"
proof -
  have False if h: "first_free_run p m (unat n) h" and z: "base_frame_no p + of_nat h = 0" for h
  proof -
    from nf0 have "unat (nframes p - 1) = unat (nframes p) - 1" "0 < unat (nframes p)"
      by unat_arith+
    moreover from h have "h + unat n \<le> unat (nframes p - 1)"
      by (simp add: first_free_run_def)
    moreover from n0 have "0 < unat n"
      by (simp add: unat_gt_0)
    ultimately have hlt: "h < unat (nframes p)"
      by arith
    with nowrap have lt: "unat (base_frame_no p) + h < 2 ^ 32" and "h < 2 ^ 32"
      by arith+
    then have "unat (of_nat h :: 32 word) = h"
      by (simp add: unat_of_nat_32)
    with lt have "unat (base_frame_no p + of_nat h) = unat (base_frame_no p) + h"
      by (simp add: unat_word_ariths)
    with z b0 show False
      by (simp add: unat_eq_0)
  qed
  with get_frames_post [OF n0, of p m] g show ?thesis
    unfolding scan_post_def by auto
qed

theorem get_frames_failure_atomic_witness:
  "(3 :: 32 word) \<noteq> 0 \<and> base_frame_no pool_K \<noteq> 0 \<and> nframes pool_K \<noteq> 0
   \<and> unat (base_frame_no pool_K) + unat (nframes pool_K) \<le> 2 ^ 32
   \<and> get_frames pool_K mem_K 3 = (0, pool_K, mem_K)"
  using get_frames_failure_atomic [of 3 pool_K mem_K pool_K mem_K]
  by (simp add: eval_defs)


subsection \<open>The free-frame counter\<close>

lemma count_free_card:
  "count_free p m = card {k. k < unat (nframes p) \<and> frame_state p m (of_nat k) = FREE}"
proof -
  have "count_free p m = card {i. i < length [0 ..< unat (nframes p)]
      \<and> frame_state p m (of_nat ([0 ..< unat (nframes p)] ! i)) = FREE}"
    unfolding count_free_def by (rule length_filter_conv_card)
  also have "{i. i < length [0 ..< unat (nframes p)]
      \<and> frame_state p m (of_nat ([0 ..< unat (nframes p)] ! i)) = FREE}
    = {k. k < unat (nframes p) \<and> frame_state p m (of_nat k) = FREE}"
    by auto
  finally show ?thesis .
qed

lemma of_nat_eq_32:
  "a < 2 ^ 32 \<Longrightarrow> b < 2 ^ 32 \<Longrightarrow> ((of_nat a :: 32 word) = of_nat b) = (a = b)"
  by (metis unat_of_nat_32)

lemma marked_frame:
  assumes hn: "h + n < 2 ^ 32" and k: "k < 2 ^ 32"
  shows "(\<lambda>a. if a = bm + of_nat h then 0x77
          else if (\<exists>j. 0 < j \<and> j < n \<and> a = bm + of_nat h + of_nat j) then 0xAA
          else m a) (bm + of_nat k)
       = (if k = h then (0x77 :: 8 word) else if h < k \<and> k < h + n then 0xAA
          else m ((bm :: 32 word) + of_nat k))"
proof -
  from hn have h: "h < 2 ^ 32" by simp
  have e1: "(bm + of_nat k = bm + of_nat h) = (k = h)"
    using of_nat_eq_32 [OF k h] by simp
  have e2: "(\<exists>j. 0 < j \<and> j < n \<and> bm + of_nat k = bm + of_nat h + of_nat j) = (h < k \<and> k < h + n)"
  proof
    assume "\<exists>j. 0 < j \<and> j < n \<and> bm + of_nat k = bm + of_nat h + of_nat j"
    then obtain j where j: "0 < j" "j < n" "bm + of_nat k = bm + of_nat h + of_nat j" by blast
    then have "(of_nat k :: 32 word) = of_nat (h + j)" by (simp add: add.assoc)
    moreover have "h + j < 2 ^ 32" using j hn by arith
    ultimately have "k = h + j" using of_nat_eq_32 [OF k] by blast
    with j show "h < k \<and> k < h + n" by arith
  next
    assume a: "h < k \<and> k < h + n"
    then have "0 < k - h" "k - h < n" "k = h + (k - h)" by arith+
    then have "0 < k - h \<and> k - h < n \<and> bm + of_nat k = bm + of_nat h + of_nat (k - h)"
      by (metis add.assoc of_nat_add)
    then show "\<exists>j. 0 < j \<and> j < n \<and> bm + of_nat k = bm + of_nat h + of_nat j" by blast
  qed
  show ?thesis by (simp only: e1 e2)
qed

lemma get_frames_counts:
  assumes n0: "n \<noteq> 0" and ca: "counts_agree p m" and g: "get_frames p m n = (f, q, mq)"
  shows "counts_agree q mq"
proof -
  from get_frames_post [OF n0, of p m] g
  consider "q = p \<and> mq = m"
    | h where "\<not> nFreeFrames p < n" "first_free_run p m (unat n) h"
       "q = p\<lparr>nFreeFrames := nFreeFrames p - n\<rparr>"
       "mq = (\<lambda>a. if a = bitmap p + of_nat h then 0x77
                  else if (\<exists>j. 0 < j \<and> j < unat n \<and> a = bitmap p + of_nat h + of_nat j)
                  then 0xAA else m a)"
    unfolding scan_post_def by auto
  then show ?thesis
  proof cases
    case 1
    with ca show ?thesis by simp
  next
    case (2 h)
    let ?N = "unat (nframes p)"
    let ?F = "{k. k < ?N \<and> frame_state p m (of_nat k) = FREE}"
    let ?F' = "{k. k < ?N \<and> frame_state q mq (of_nat k) = FREE}"
    from n0 have npos: "0 < unat n" by (simp add: unat_gt_0)
    from 2(1) have le: "unat n \<le> unat (nFreeFrames p)" by (simp add: word_less_nat_alt)
    have nf0: "nframes p \<noteq> 0"
    proof
      assume "nframes p = 0"
      then have "count_free p m = 0" by (simp add: count_free_def)
      with ca le npos show False by (simp add: counts_agree_def)
    qed
    then have N: "unat (nframes p - 1) = ?N - 1" "0 < ?N" by unat_arith+
    from 2(2) have hN: "h + unat n \<le> unat (nframes p - 1)" and run: "free_run p m h (unat n)"
      by (simp_all add: first_free_run_def)
    have hb: "h + unat n < 2 ^ 32" by (rule first_free_run_bound [OF 2(2)])
    have Nb: "?N < 2 ^ 32" using unsigned_less [of "nframes p", where 'a = nat] by simp
    have fs: "frame_state q mq (of_nat k) =
        (if k = h then 0x77 else if h < k \<and> k < h + unat n then 0xAA else frame_state p m (of_nat k))"
      if "k < ?N" for k
    proof -
      from that Nb have "k < 2 ^ 32" by arith
      then have "mq (bitmap p + of_nat k) =
        (if k = h then 0x77 else if h < k \<and> k < h + unat n then 0xAA else m (bitmap p + of_nat k))"
        unfolding 2(4) by (rule marked_frame [OF hb])
      moreover have "frame_state q mq x = mq (bitmap p + x)" for x
        by (simp add: frame_state_def 2(3))
      ultimately show ?thesis
        by (simp add: frame_state_def)
    qed
    have sub: "{h ..< h + unat n} \<subseteq> ?F"
    proof
      fix k assume "k \<in> {h ..< h + unat n}"
      then have k: "h \<le> k" "k < h + unat n" by simp_all
      with hN N have "k < ?N" by arith
      moreover have "frame_state p m (of_nat k) = FREE"
        by (rule free_run_nth [OF run k])
      ultimately show "k \<in> ?F" by simp
    qed
    have "?F' = ?F - {h ..< h + unat n}"
      using npos by (auto simp: fs frame_state_defs split: if_splits)
    then have "card ?F' = card ?F - card {h ..< h + unat n}"
      using sub by (simp add: card_Diff_subset)
    then have "count_free q mq = count_free p m - unat n"
      by (simp add: count_free_card 2(3))
    moreover have "unat (nFreeFrames q) = unat (nFreeFrames p) - unat n"
      using 2(1) by (simp add: 2(3) unat_sub)
    ultimately show ?thesis
      using ca by (simp add: counts_agree_def)
  qed
qed


lemma mark_inaccessible_counts:
  assumes ca: "counts_agree p m" and fr: "frame_state p m (g - base_frame_no p) = FREE"
    and mi: "mark_inaccessible p m g = Inr (r, mr)"
  shows "counts_agree r mr"
proof -
  let ?N = "unat (nframes p)"
  let ?d = "unat (g - base_frame_no p)"
  let ?F = "{k. k < ?N \<and> frame_state p m (of_nat k) = FREE}"
  let ?F' = "{k. k < ?N \<and> frame_state r mr (of_nat k) = FREE}"
  from mi have rng: "base_frame_no p \<le> g" "g < base_frame_no p + nframes p"
    and r: "r = p\<lparr>nFreeFrames := nFreeFrames p - 1\<rparr>"
    and mr: "mr = m(bitmap p + (g - base_frame_no p) := 0x80)"
    by (auto simp: mark_inaccessible_def Let_def split: if_splits)
  from rng have d: "?d < ?N"
    by unat_arith
  have Nb: "?N < 2 ^ 32"
    using unsigned_less [of "nframes p", where 'a = nat] by simp
  have fs: "frame_state r mr (of_nat k) = (if k = ?d then 0x80 else frame_state p m (of_nat k))"
    if "k < ?N" for k
  proof -
    from that Nb have k: "k < 2 ^ 32" by arith
    have "((of_nat k :: 32 word) = g - base_frame_no p) = (k = ?d)"
    proof
      assume "(of_nat k :: 32 word) = g - base_frame_no p"
      then have "unat (of_nat k :: 32 word) = ?d" by simp
      with k show "k = ?d" by (simp add: unat_of_nat_32)
    next
      assume "k = ?d"
      then show "(of_nat k :: 32 word) = g - base_frame_no p" by simp
    qed
    then show ?thesis
      by (simp add: frame_state_def r mr)
  qed
  have din: "?d \<in> ?F"
    using d fr by simp
  have fd: "frame_state r mr (g - base_frame_no p) = 0x80"
    by (simp add: frame_state_def r mr)
  have "?F' = ?F - {?d}"
    by (auto simp: fs fd frame_state_defs split: if_splits)
  moreover have "finite ?F" by simp
  ultimately have "card ?F' = card ?F - 1"
    using din by (simp add: card_Diff_singleton)
  then have c: "count_free r mr = count_free p m - 1"
    by (simp add: count_free_card r)
  have "0 < card ?F"
    using din by (auto simp: card_gt_0_iff)
  then have "0 < unat (nFreeFrames p)"
    using ca by (simp add: counts_agree_def count_free_card)
  then have "unat (nFreeFrames p - 1) = unat (nFreeFrames p) - 1"
    by unat_arith
  with c ca show ?thesis
    by (simp add: counts_agree_def r)
qed

lemma fill_free_spec:
  "fill_free bm n i m =
     (\<lambda>a. if unat i \<le> unat (a - bm) \<and> unat (a - bm) < unat n then 0xFF else m a)"
proof (induction bm n i m rule: fill_free.induct)
  case (1 bm n i m)
  show ?case
  proof (cases "i < n")
    case True
    then have lt: "unat i < unat n" by (simp add: word_less_nat_alt)
    then have ui: "unat (i + 1) = Suc (unat i)" by unat_arith
    have e: "(a = bm + i) = (unat (a - bm) = unat i)" for a :: "32 word"
      by (metis add_diff_cancel_left' diff_add_cancel add.commute word_unat_eq_iff)
    have "fill_free bm n i m = fill_free bm n (i + 1) (m(bm + i := 0xFF))"
      using True by (subst fill_free.simps) simp
    also have "\<dots> = (\<lambda>a. if unat (i + 1) \<le> unat (a - bm) \<and> unat (a - bm) < unat n then 0xFF
        else (m(bm + i := 0xFF)) a)"
      by (rule "1.IH" [OF True])
    also have "\<dots> = (\<lambda>a. if unat i \<le> unat (a - bm) \<and> unat (a - bm) < unat n then 0xFF else m a)"
      using lt by (auto simp: fun_eq_iff ui e)
    finally show ?thesis .
  next
    case False
    then have "unat n \<le> unat i" by (simp add: word_less_nat_alt)
    then have neg: "\<not> (unat i \<le> unat (a - bm) \<and> unat (a - bm) < unat n)" for a
      by arith
    have "(\<lambda>a. if unat i \<le> unat (a - bm) \<and> unat (a - bm) < unat n then 0xFF else m a) = m"
    proof (rule ext)
      fix a
      show "(if unat i \<le> unat (a - bm) \<and> unat (a - bm) < unat n then 0xFF else m a) = m a"
        using neg [of a] by (simp only: if_False)
    qed
    moreover have "fill_free bm n i m = m"
      using False by (subst fill_free.simps) simp
    ultimately show ?thesis by (simp only:)
  qed
qed

lemma info_loop_none:
  "cont_info \<noteq> 0 \<Longrightarrow> info_loop bm (cont_info - 1) cont_info nfree m = Inr (nfree, m)"
proof -
  assume "cont_info \<noteq> 0"
  then have "\<not> cont_info \<le> cont_info - 1" by unat_arith
  then show ?thesis by (subst info_loop.simps) simp
qed

lemma ContFramePool_counts:
  assumes n0: "n \<noteq> 0" and c: "ContFramePool FS ps m b n info_no 0 = Inr (ps', m')"
  shows "counts_agree (last ps') m'"
proof -
  define bm where "bm = (if info_no = 0 then b * FS else info_no * FS)"
  define m1 where "m1 = fill_free bm n 0 m"
  have Nb: "unat n < 2 ^ 32"
    using unsigned_less [of n, where 'a = nat] by simp
  have m1: "m1 (bm + of_nat k) = 0xFF" if "k < unat n" for k
  proof -
    from that Nb have "unat (of_nat k :: 32 word) = k" by (simp add: unat_of_nat_32)
    with that show ?thesis by (simp add: m1_def fill_free_spec)
  qed
  show ?thesis
  proof (cases "info_no = 0")
    case True
    let ?p = "\<lparr>base_frame_no = b, nframes = n, nFreeFrames = n - 1,
                info_frame_no = info_no, n_info_frames = 0, bitmap = bm\<rparr>"
    have one: "info_loop bm' 0 1 nfree mm = Inr (nfree, mm)" for bm' nfree mm
      using info_loop_none [of 1 bm' nfree mm] by simp
    from c True have "ps' = ps @ [?p]" and m': "m' = m1(bm := 0x0)"
      by (auto simp: ContFramePool_def Let_def bm_def m1_def one split: if_splits)
    then have l: "last ps' = ?p" by simp
    have "{k. k < unat n \<and> frame_state ?p m' (of_nat k) = FREE} = {1 ..< unat n}"
    proof -
      have "frame_state ?p m' (of_nat k) = (if k = 0 then 0x0 else 0xFF)" if "k < unat n" for k
      proof -
        from that Nb have "unat (of_nat k :: 32 word) = k" by (simp add: unat_of_nat_32)
        then have "((of_nat k :: 32 word) = 0) = (k = 0)" by (metis unat_eq_0)
        with m1 [OF that] show ?thesis by (simp add: frame_state_def m')
      qed
      then show ?thesis by (auto simp: FREE_def split: if_splits)
    qed
    then have "count_free ?p m' = unat n - 1"
      by (simp add: count_free_card)
    moreover have "unat (n - 1) = unat n - 1"
      using n0 by unat_arith
    ultimately show ?thesis by (simp add: counts_agree_def l)
  next
    case False
    let ?p = "\<lparr>base_frame_no = b, nframes = n, nFreeFrames = n,
                info_frame_no = info_no, n_info_frames = 0, bitmap = bm\<rparr>"
    from c False have "ps' = ps @ [?p]" and m': "m' = m1"
      by (auto simp: ContFramePool_def Let_def bm_def m1_def info_loop_none [OF False]
          split: if_splits)
    then have l: "last ps' = ?p" by simp
    have "{k. k < unat n \<and> frame_state ?p m' (of_nat k) = FREE} = {k. k < unat n}"
      using m1 by (auto simp: frame_state_def m' FREE_def)
    then have "count_free ?p m' = unat n"
      by (simp add: count_free_card)
    then show ?thesis by (simp add: counts_agree_def l)
  qed
qed

text \<open>
  Claim C2, amended. For every pool and the operations applied to it: right after a
  construction with \<open>n_info_frames = 0\<close> and at least one frame, \<open>nFreeFrames\<close> equals the
  number of frames of the pool whose stored state is FREE; \<open>get_frames(k)\<close> with
  \<open>k \<ge> 1\<close> keeps the equality; and \<open>mark_inaccessible(g)\<close> keeps it when it passes its
  range check and frame \<open>g\<close> was FREE before the call.
\<close>

theorem free_count_invariant:
  "(n \<noteq> 0 \<and> ContFramePool FS ps m0 b n info_no 0 = Inr (ps', m0') \<longrightarrow> counts_agree (last ps') m0')
   \<and> (k \<noteq> 0 \<and> counts_agree p m \<and> get_frames p m k = (f, q, mq) \<longrightarrow> counts_agree q mq)
   \<and> (counts_agree p m \<and> frame_state p m (g - base_frame_no p) = FREE
        \<and> mark_inaccessible p m g = Inr (r, mr) \<longrightarrow> counts_agree r mr)"
  using ContFramePool_counts get_frames_counts mark_inaccessible_counts by blast

theorem free_count_invariant_witness:
  "(4 :: 32 word) \<noteq> 0 \<and> ContFramePool 4096 [] (\<lambda>_. 0) 2 4 0 0 = Inr ([pool_K], mem_K)
   \<and> (2 :: 32 word) \<noteq> 0 \<and> counts_agree pool_K mem_K
   \<and> get_frames pool_K mem_K 2 = (3, pool_K2, mem_K2) \<and> counts_agree pool_K2 mem_K2
   \<and> frame_state pool_K mem_K (3 - base_frame_no pool_K) = FREE
   \<and> mark_inaccessible pool_K mem_K 3 = Inr (pool_K\<lparr>nFreeFrames := 2\<rparr>, mem_K(8193 := 0x80))
   \<and> counts_agree (pool_K\<lparr>nFreeFrames := 2\<rparr>) (mem_K(8193 := 0x80))"
  using free_count_invariant [of 4 4096 "[]" "\<lambda>_. 0" 2 0 "[pool_K]" mem_K 2 pool_K mem_K 3
      pool_K2 mem_K2 3 "pool_K\<lparr>nFreeFrames := 2\<rparr>" "mem_K(8193 := 0x80)"]
  by (simp add: eval_defs counts_agree_def count_free_def upt_conv_Cons)

text \<open>
  Claim C2 as stated fails at \<open>pool_K\<close>, right after its construction, where the counter
  and the bitmap agree on three free frames: \<open>mark_inaccessible(2)\<close> on frame 2, which
  the constructor has already reserved, decrements \<open>nFreeFrames\<close> to 2 while three
  frames are still FREE.
\<close>

theorem free_count_counterexample:
  "ContFramePool 4096 [] (\<lambda>_. 0) 2 4 0 0 = Inr ([pool_K], mem_K)
   \<and> unat (nFreeFrames pool_K) = 3 \<and> count_free pool_K mem_K = 3
   \<and> mark_inaccessible pool_K mem_K 2 = Inr (pool_K\<lparr>nFreeFrames := 2\<rparr>, mem_K(8192 := 0x80))
   \<and> unat (nFreeFrames (pool_K\<lparr>nFreeFrames := 2\<rparr>)) = 2
   \<and> count_free (pool_K\<lparr>nFreeFrames := 2\<rparr>) (mem_K(8192 := 0x80)) = 3
   \<and> \<not> counts_agree (pool_K\<lparr>nFreeFrames := 2\<rparr>) (mem_K(8192 := 0x80))"
  by (simp add: counts_agree_def count_free_def eval_defs upt_conv_Cons)

text \<open>With one info frame, the constructor writes \<open>0xFF\<close> to frame 1 and decrements
  \<open>nFreeFrames\<close> for it: two free frames counted, three in the bitmap.\<close>

lemma constructor_info_frames_miscount:
  "ContFramePool 4096 [] (\<lambda>_. 0) 2 4 0 1
     = Inr ([pool_K\<lparr>nFreeFrames := 2, n_info_frames := 1\<rparr>], mem_K(8193 := 0xFF))
   \<and> count_free (pool_K\<lparr>nFreeFrames := 2, n_info_frames := 1\<rparr>) (mem_K(8193 := 0xFF)) = 3"
  by (simp add: count_free_def eval_defs upt_conv_Cons)


subsection \<open>get\_frames at the example pools\<close>

text \<open>
  Claim C4, at \<open>pool_K\<close>, which has three free frames. \<open>get_frames(0)\<close> returns frame 2,
  not 0: frame 0 of the pool is not FREE, the counter is reset to 0 and equals the
  request, and the frame is marked HEAD\_OF\_SEQUENCE and \<open>nFreeFrames\<close> decremented.
\<close>

theorem get_frames_zero_request:
  "nFreeFrames pool_K = 3
   \<and> get_frames pool_K mem_K 0 = (2, pool_K\<lparr>nFreeFrames := 2\<rparr>, mem_K(8192 := 0x77))"
  by (simp add: eval_defs)

text \<open>
  Claim C5, at \<open>pool_K\<close>, of four frames. Frames 1, 2 and 3 are FREE and frame 0 is not, so
  the only run of three FREE frames ends at the last frame of the pool; \<open>get_frames(3)\<close>
  returns 0 and changes nothing.
\<close>

theorem get_frames_misses_last_frame:
  "nframes pool_K = 4 \<and> nFreeFrames pool_K = 3
   \<and> frame_state pool_K mem_K 0 \<noteq> FREE
   \<and> frame_state pool_K mem_K 1 = FREE
   \<and> frame_state pool_K mem_K 2 = FREE
   \<and> frame_state pool_K mem_K 3 = FREE
   \<and> get_frames pool_K mem_K 3 = (0, pool_K, mem_K)"
  by (simp add: eval_defs)

subsection \<open>needed\_info\_frames\<close>

lemma nat_ceiling_div:
  "0 < b \<Longrightarrow> \<lceil>real a / real b\<rceil> = int (a div b + (if a mod b > 0 then 1 else 0))"
proof -
  assume b: "0 < b"
  have "\<lceil>real a / real b\<rceil> = \<lceil>real_of_int (int a) / real_of_int (int b)\<rceil>"
    by simp
  also have "\<dots> = - (- int a div int b)"
    by (rule ceiling_divide_eq_div)
  also have "\<dots> = int (a div b + (if a mod b > 0 then 1 else 0))"
    using b
    apply (simp add: zdiv_zminus1_eq_if)
    apply (auto simp: zdiv_int zmod_int)
    done
  finally show ?thesis .
qed

lemma unat_needed_info_frames:
  assumes fs: "FS \<noteq> 0"
  shows "unat (needed_info_frames FS n)
     = unat n div unat FS + (if unat n mod unat FS > 0 then 1 else 0)"
proof -
  from fs have pos: "0 < unat FS"
    by (simp add: unat_gt_0)
  have d: "unat (n div FS) = unat n div unat FS"
    by (rule unat_div)
  have mo: "unat (n mod FS) = unat n mod unat FS"
    by (rule unat_mod)
  show ?thesis
  proof (cases "n mod FS > 0")
    case False
    then have "unat n mod unat FS = 0"
      using mo by (simp add: word_greater_zero_iff)
    with False show ?thesis
      by (simp add: needed_info_frames_def d)
  next
    case True
    then have "unat (n mod FS) \<noteq> 0"
      by (simp add: unat_eq_0)
    then have m1: "unat n mod unat FS > 0"
      using mo by simp
    have "unat n div unat FS \<le> unat n"
      by (rule div_le_dividend)
    moreover have "unat n div unat FS \<noteq> unat n"
    proof
      assume e: "unat n div unat FS = unat n"
      have "unat n = unat FS * (unat n div unat FS) + unat n mod unat FS"
        by simp
      with e have "unat n = unat FS * unat n + unat n mod unat FS"
        by simp
      moreover have "unat n \<le> unat FS * unat n"
        using pos by simp
      ultimately show False
        using m1 by linarith
    qed
    ultimately have "unat n div unat FS < unat n"
      by linarith
    then have "unat n div unat FS + 1 < 2 ^ 32"
      using unsigned_less [of n, where 'a = nat] by simp
    then have "unat (n div FS + 1) = unat n div unat FS + 1"
      by (simp add: unat_word_ariths d)
    with True m1 show ?thesis
      by (simp add: needed_info_frames_def)
  qed
qed

text \<open>
  Claim C9. \<open>needed_info_frames\<close> is a function of its argument alone (it reads and
  writes no pool and no memory), and for every \<open>n\<close> and every nonzero \<open>FRAME_SIZE\<close> its
  value is \<open>n / FRAME_SIZE\<close> rounded up to the next integer, without wrap-around in 32 bits.
\<close>

theorem needed_info_frames_ceiling:
  "FS \<noteq> 0 \<Longrightarrow>
     int (unat (needed_info_frames FS n)) = \<lceil>real (unat n) / real (unat FS)\<rceil>"
proof -
  assume fs: "FS \<noteq> 0"
  then have pos: "0 < unat FS"
    by (simp add: unat_gt_0)
  have key: "\<lceil>real (unat n) / real (unat FS)\<rceil>
     = int (unat n div unat FS + (if unat n mod unat FS > 0 then 1 else 0))"
    by (rule nat_ceiling_div [OF pos])
  show ?thesis
    by (simp only: unat_needed_info_frames [OF fs] key)
qed

theorem needed_info_frames_ceiling_witness:
  "(4096 :: 32 word) \<noteq> 0
   \<and> int (unat (needed_info_frames 4096 4097))
       = \<lceil>real (unat (4097 :: 32 word)) / real (unat (4096 :: 32 word))\<rceil>
   \<and> needed_info_frames 4096 4097 = 2"
  using needed_info_frames_ceiling [of 4096 4097]
  by (simp add: needed_info_frames_def)

end
